theory Spec2Isabelle
  imports Complex_Main "HOL-Library.Multiset"
begin

section \<open>Data model\<close>

text \<open>
  The tables of \<^verbatim>\<open>app.py\<close> are pandas data frames; a frame is modelled as the list of
  its rows, a row as a record whose fields carry the column names of the source.
  Python integers are unbounded, hence \<open>int\<close>; a timestamp is an integer count of time
  units. The row label of a freshly loaded frame is the position of the row. A pending
  row has the columns of a match row and the two confirmation flags.
\<close>

record player =
  Name :: string
  ELO :: int
  Siege :: int
  Niederlagen :: int
  Spiele :: int
  Pin :: string

record match =
  Datum :: int
  A :: string
  B :: string
  PunkteA :: int
  PunkteB :: int

record pending_match = match +
  confA :: bool
  confB :: bool

record app_state =
  players :: "player list"
  matches :: "match list"
  pending :: "pending_match list"

datatype error = IndexError | KeyError | InvalidInput

definition bind_err :: "error + 'a \<Rightarrow> ('a \<Rightarrow> error + 'b) \<Rightarrow> error + 'b" where
  "bind_err m f = (case m of Inl e \<Rightarrow> Inl e | Inr x \<Rightarrow> f x)"

section \<open>Rating formula\<close>

text \<open>
  \<^verbatim>\<open>calc_elo\<close> evaluates its formula in the double arithmetic of the machine, with the
  power function of the platform. That arithmetic is not modelled: the value that
  \<^verbatim>\<open>calc_elo\<close> returns is a parameter \<open>calc_elo\<close> of every function below that calls it,
  and what is proved of those functions holds for whatever integers the machine returns.
  A call that the machine does not complete (on Python floats the power overflows for a
  rating gap above about 123300) is outside of what is modelled.
  \<open>calc_elo_real\<close> is the formula of lines 30 and 31 in exact real arithmetic, with
  \<^verbatim>\<open>round(x, 0)\<close> as the nearest integral value, a tie going to the even neighbour; it
  is the rating function of the worked examples, which stay at ratings where the double
  arithmetic gives the same integers.
\<close>

definition py_round :: "real \<Rightarrow> int" where
  "py_round x =
     (let f = \<lfloor>x\<rfloor>; d = x - of_int f
      in if d < 1 / 2 then f
         else if 1 / 2 < d then f + 1
         else if even f then f else f + 1)"

definition calc_elo_real :: "int \<Rightarrow> int \<Rightarrow> int \<Rightarrow> int \<Rightarrow> int" where
  "calc_elo_real r_a r_b score_a k =
     (let exp_a = 1 / (1 + 10 powr (of_int (r_b - r_a) / 400))
      in py_round (of_int r_a + of_int k * (of_int score_a - exp_a)))"

section \<open>Rebuilding the roster\<close>

text \<open>\<^verbatim>\<open>players_df[["ELO", "Siege", "Niederlagen", "Spiele"]] = 0; players_df["ELO"] = 1200\<close>\<close>

definition reset_stats :: "player \<Rightarrow> player" where
  "reset_stats p = p\<lparr>ELO := 1200, Siege := 0, Niederlagen := 0, Spiele := 0\<rparr>"

text \<open>\<^verbatim>\<open>players_df.loc[players_df["Name"] == a, col]\<close>: the column of the rows named \<open>a\<close>.\<close>

definition loc :: "player list \<Rightarrow> string \<Rightarrow> (player \<Rightarrow> 'a) \<Rightarrow> 'a list" where
  "loc ps a col = map col (filter (\<lambda>p. Name p = a) ps)"

text \<open>\<^verbatim>\<open>.iat[0]\<close> raises on an empty selection.\<close>

definition iat0 :: "'a list \<Rightarrow> error + 'a" where
  "iat0 xs = (case xs of [] \<Rightarrow> Inl IndexError | x # _ \<Rightarrow> Inr x)"

text \<open>The assignment of four values to the statistics columns of every row named \<open>a\<close>.\<close>

definition set_stats :: "player list \<Rightarrow> string \<Rightarrow> int \<Rightarrow> int \<Rightarrow> int \<Rightarrow> int \<Rightarrow> player list" where
  "set_stats ps a e w l g =
     map (\<lambda>p. if Name p = a then p\<lparr>ELO := e, Siege := w, Niederlagen := l, Spiele := g\<rparr> else p) ps"

text \<open>One iteration of the loop of \<^verbatim>\<open>rebuild_players\<close>.\<close>

definition replay_match ::
  "(int \<Rightarrow> int \<Rightarrow> int \<Rightarrow> int \<Rightarrow> int) \<Rightarrow> player list \<Rightarrow> match \<Rightarrow> int \<Rightarrow> error + player list" where
  "replay_match calc_elo ps row k =
     (let a = A row; b = B row; pa = PunkteA row; pb = PunkteB row
      in if a \<notin> set (map Name ps) \<or> b \<notin> set (map Name ps) then Inr ps
         else
           bind_err (iat0 (loc ps a ELO)) (\<lambda>r_a.
           bind_err (iat0 (loc ps b ELO)) (\<lambda>r_b.
             let score_a = (if pa > pb then 1 else 0);
                 score_b = 1 - score_a;
                 new_r_a = calc_elo r_a r_b score_a k;
                 new_r_b = calc_elo r_b r_a score_b k
             in
               bind_err (iat0 (loc ps a Siege)) (\<lambda>w_a.
               bind_err (iat0 (loc ps a Niederlagen)) (\<lambda>l_a.
               bind_err (iat0 (loc ps a Spiele)) (\<lambda>g_a.
                 let ps1 = set_stats ps a new_r_a (w_a + score_a) (l_a + score_b) (g_a + 1)
                 in
                   bind_err (iat0 (loc ps1 b Siege)) (\<lambda>w_b.
                   bind_err (iat0 (loc ps1 b Niederlagen)) (\<lambda>l_b.
                   bind_err (iat0 (loc ps1 b Spiele)) (\<lambda>g_b.
                     Inr (set_stats ps1 b new_r_b (w_b + score_b) (l_b + score_a) (g_b + 1)))))))))))"

fun replay ::
  "(int \<Rightarrow> int \<Rightarrow> int \<Rightarrow> int \<Rightarrow> int) \<Rightarrow> player list \<Rightarrow> match list \<Rightarrow> int \<Rightarrow> error + player list" where
  "replay calc_elo ps [] k = Inr ps"
| "replay calc_elo ps (row # rows) k =
     bind_err (replay_match calc_elo ps row k) (\<lambda>ps'. replay calc_elo ps' rows k)"

text \<open>
  \<^verbatim>\<open>matches_df.sort_values("Datum")\<close> asks pandas for its default sort, which orders
  the rows by the key and promises nothing about rows with the same key. The sort is a
  parameter: \<open>argsort\<close> maps the key column to the positions of the rows in their new
  order, as the argsort of the library does, and \<open>sort_values\<close> reads the frame at
  those positions. \<open>ascending_argsort\<close> is all that is known of it: the positions are a
  permutation of the positions of the frame, and the keys ascend along them.
\<close>

definition sort_values :: "(int list \<Rightarrow> nat list) \<Rightarrow> match list \<Rightarrow> match list" where
  "sort_values argsort matches_df = map (\<lambda>i. matches_df ! i) (argsort (map Datum matches_df))"

definition ascending_argsort :: "(int list \<Rightarrow> nat list) \<Rightarrow> bool" where
  "ascending_argsort argsort \<longleftrightarrow>
     (\<forall>keys. mset (argsort keys) = mset [0..<length keys] \<and>
             sorted (map (\<lambda>i. keys ! i) (argsort keys)))"

text \<open>
  Two sorts of that kind: one keeps rows with the same key in the order of the input (an
  insertion sort, which the library runs on short frames), the other reverses them.
\<close>

definition stable_argsort :: "int list \<Rightarrow> nat list" where
  "stable_argsort keys = sort_key (\<lambda>i. keys ! i) [0..<length keys]"

definition reversing_argsort :: "int list \<Rightarrow> nat list" where
  "reversing_argsort keys = sort_key (\<lambda>i. keys ! i) (rev [0..<length keys])"

definition rebuild_players ::
  "(int list \<Rightarrow> nat list) \<Rightarrow> (int \<Rightarrow> int \<Rightarrow> int \<Rightarrow> int \<Rightarrow> int)
     \<Rightarrow> player list \<Rightarrow> match list \<Rightarrow> int \<Rightarrow> error + player list" where
  "rebuild_players argsort calc_elo players_df matches_df k =
     (let ps = map reset_stats players_df
      in if matches_df = [] then Inr ps
         else replay calc_elo ps (sort_values argsort matches_df) k)"

section \<open>Rating history of one player\<close>






section \<open>Confirmation workflow\<close>

text \<open>
  The handler of the button \<^verbatim>\<open>Match speichern\<close>. \<open>ts_now\<close> is the reading of the
  clock; the new row gets the label \<^verbatim>\<open>len(pending)\<close>, the position after the last row.
\<close>

definition submit ::
  "int \<Rightarrow> string \<Rightarrow> string \<Rightarrow> int \<Rightarrow> int \<Rightarrow> app_state \<Rightarrow> error + app_state" where
  "submit ts_now current_player b pa pb st =
     (if current_player = b then Inl InvalidInput
      else Inr (st\<lparr>pending := pending st @
             [\<lparr>Datum = ts_now, A = current_player, B = b, PunkteA = pa, PunkteB = pb,
               confA = True, confB = False\<rparr>]\<rparr>))"

text \<open>The filter that selects the rows shown to the current player, as row labels.\<close>

definition awaiting :: "string \<Rightarrow> pending_match \<Rightarrow> bool" where
  "awaiting current_player row \<longleftrightarrow>
     (A row = current_player \<and> confA row = False) \<or> (B row = current_player \<and> confB row = False)"

definition to_confirm :: "string \<Rightarrow> pending_match list \<Rightarrow> nat list" where
  "to_confirm current_player pend = filter (\<lambda>idx. awaiting current_player (pend ! idx)) [0..<length pend]"

text \<open>\<^verbatim>\<open>pending.drop(idx)\<close> raises on a label that the frame does not have.\<close>

definition df_drop :: "nat \<Rightarrow> 'a list \<Rightarrow> error + 'a list" where
  "df_drop idx rows = (if idx < length rows then Inr (take idx rows @ drop (Suc idx) rows) else Inl KeyError)"

text \<open>
  The handlers of the buttons \<^verbatim>\<open>Bestaetigen\<close> and \<^verbatim>\<open>Ablehnen\<close> of the row with
  label \<open>idx\<close>. An exception leaves the stored tables as they were. A label outside
  the frame has no row to read.
\<close>

definition confirm_handler ::
  "(int list \<Rightarrow> nat list) \<Rightarrow> (int \<Rightarrow> int \<Rightarrow> int \<Rightarrow> int \<Rightarrow> int)
     \<Rightarrow> nat \<Rightarrow> string \<Rightarrow> app_state \<Rightarrow> error + app_state" where
  "confirm_handler argsort calc_elo idx current_player st =
     (if \<not> idx < length (pending st) then Inl KeyError
      else
        let row = pending st ! idx;
            pend1 = (if A row = current_player
                     then (pending st)[idx := (pending st ! idx)\<lparr>confA := True\<rparr>]
                     else (pending st)[idx := (pending st ! idx)\<lparr>confB := True\<rparr>])
        in if confA (pend1 ! idx) \<and> confB (pend1 ! idx) then
             let matches1 = matches st @ [match.truncate (pend1 ! idx)]
             in bind_err (df_drop idx pend1) (\<lambda>pend2.
                bind_err (rebuild_players argsort calc_elo (players st) matches1 32) (\<lambda>players1.
                  Inr \<lparr>players = players1, matches = matches1, pending = pend2\<rparr>))
           else Inr (st\<lparr>pending := pend1\<rparr>))"

definition reject_handler :: "nat \<Rightarrow> app_state \<Rightarrow> error + app_state" where
  "reject_handler idx st =
     bind_err (df_drop idx (pending st)) (\<lambda>pend1. Inr (st\<lparr>pending := pend1\<rparr>))"

text \<open>
  The two buttons exist for the rows of \<open>to_confirm\<close> only: a click with any other
  label runs no handler.
\<close>

definition confirm ::
  "(int list \<Rightarrow> nat list) \<Rightarrow> (int \<Rightarrow> int \<Rightarrow> int \<Rightarrow> int \<Rightarrow> int)
     \<Rightarrow> nat \<Rightarrow> string \<Rightarrow> app_state \<Rightarrow> error + app_state" where
  "confirm argsort calc_elo idx current_player st =
     (if idx \<in> set (to_confirm current_player (pending st))
      then confirm_handler argsort calc_elo idx current_player st else Inr st)"

definition reject :: "nat \<Rightarrow> string \<Rightarrow> app_state \<Rightarrow> error + app_state" where
  "reject idx current_player st =
     (if idx \<in> set (to_confirm current_player (pending st))
      then reject_handler idx st else Inr st)"

text \<open>
  The aliasing of \<^verbatim>\<open>rebuild_players\<close>: a store is the list of the frames that exist, a
  reference the position of a frame in it (a reference in use lies within the store).
  \<^verbatim>\<open>players_df.copy()\<close> allocates a new frame, and every later assignment of the
  function goes to that frame.
\<close>

fun replay_store ::
  "(int \<Rightarrow> int \<Rightarrow> int \<Rightarrow> int \<Rightarrow> int) \<Rightarrow> player list list \<Rightarrow> nat \<Rightarrow> match list \<Rightarrow> int \<Rightarrow> error + player list list" where
  "replay_store calc_elo h r [] k = Inr h"
| "replay_store calc_elo h r (row # rows) k =
     bind_err (replay_match calc_elo (h ! r) row k)
       (\<lambda>ps'. replay_store calc_elo (h[r := ps']) r rows k)"

definition rebuild_players_store ::
  "(int list \<Rightarrow> nat list) \<Rightarrow> (int \<Rightarrow> int \<Rightarrow> int \<Rightarrow> int \<Rightarrow> int)
     \<Rightarrow> player list list \<Rightarrow> nat \<Rightarrow> match list \<Rightarrow> int \<Rightarrow> error + (nat \<times> player list list)" where
  "rebuild_players_store argsort calc_elo h players_df matches_df k =
     (let new = length h;
          h1 = h @ [h ! players_df];
          h2 = h1[new := map reset_stats (h1 ! new)]
      in if matches_df = [] then Inr (new, h2)
         else bind_err (replay_store calc_elo h2 new (sort_values argsort matches_df) k)
                (\<lambda>h3. Inr (new, h3)))"

section \<open>Notions used in the proofs\<close>

text \<open>The first row of the roster with a given name, and the effect of one played match.\<close>

definition row_of :: "player list \<Rightarrow> string \<Rightarrow> player" where
  "row_of ps a = hd (filter (\<lambda>p. Name p = a) ps)"

definition apply_match ::
  "(int \<Rightarrow> int \<Rightarrow> int \<Rightarrow> int \<Rightarrow> int) \<Rightarrow> player list \<Rightarrow> match \<Rightarrow> int \<Rightarrow> player list" where
  "apply_match calc_elo ps row k =
     (let a = A row; b = B row;
          score_a = (if PunkteA row > PunkteB row then 1 else 0);
          score_b = 1 - score_a;
          r_a = ELO (row_of ps a); r_b = ELO (row_of ps b);
          ps1 = set_stats ps a (calc_elo r_a r_b score_a k) (Siege (row_of ps a) + score_a)
                  (Niederlagen (row_of ps a) + score_b) (Spiele (row_of ps a) + 1)
      in set_stats ps1 b (calc_elo r_b r_a score_b k) (Siege (row_of ps1 b) + score_b)
           (Niederlagen (row_of ps1 b) + score_a) (Spiele (row_of ps1 b) + 1))"

text \<open>The rows that the rebuild replays, in their order.\<close>

definition replayed :: "(int list \<Rightarrow> nat list) \<Rightarrow> match list \<Rightarrow> match list" where
  "replayed argsort ms = (if ms = [] then [] else sort_values argsort ms)"

text \<open>Both players of a match are on the roster.\<close>

definition present :: "player list \<Rightarrow> match \<Rightarrow> bool" where
  "present ps row \<longleftrightarrow> A row \<in> set (map Name ps) \<and> B row \<in> set (map Name ps)"

definition step ::
  "(int \<Rightarrow> int \<Rightarrow> int \<Rightarrow> int \<Rightarrow> int) \<Rightarrow> int \<Rightarrow> player list \<Rightarrow> match \<Rightarrow> player list" where
  "step calc_elo k ps row = (if present ps row then apply_match calc_elo ps row k else ps)"

definition counts_ok :: "player \<Rightarrow> bool" where
  "counts_ok p \<longleftrightarrow>
     Siege p + Niederlagen p = Spiele p \<and> 0 \<le> Siege p \<and> 0 \<le> Niederlagen p \<and> 0 \<le> Spiele p"

text \<open>Two rows that differ in the four statistics columns at most.\<close>

definition same_identity :: "player \<Rightarrow> player \<Rightarrow> bool" where
  "same_identity p p' \<longleftrightarrow>
     p' = p\<lparr>ELO := ELO p', Siege := Siege p', Niederlagen := Niederlagen p', Spiele := Spiele p'\<rparr>"





text \<open>The row after the click of \<open>current_player\<close>, and the flag of that player's side.\<close>

definition set_flag :: "string \<Rightarrow> pending_match \<Rightarrow> pending_match" where
  "set_flag cp row = (if A row = cp then row\<lparr>confA := True\<rparr> else row\<lparr>confB := True\<rparr>)"

definition side_flag :: "string \<Rightarrow> pending_match \<Rightarrow> bool" where
  "side_flag cp row = (if A row = cp then confA row else confB row)"

text \<open>No pending row carries both flags: a row with both flags has left the table.\<close>

definition one_sided :: "pending_match list \<Rightarrow> bool" where
  "one_sided pend \<longleftrightarrow> (\<forall>r\<in>set pend. \<not> (confA r \<and> confB r))"

text \<open>Rows for the worked examples.\<close>

abbreviation mk_player :: "string \<Rightarrow> int \<Rightarrow> int \<Rightarrow> int \<Rightarrow> int \<Rightarrow> player" where
  "mk_player n e w l g \<equiv>
     \<lparr>Name = n, ELO = e, Siege = w, Niederlagen = l, Spiele = g, Pin = ''pin''\<rparr>"

abbreviation mk_match :: "int \<Rightarrow> string \<Rightarrow> string \<Rightarrow> int \<Rightarrow> int \<Rightarrow> match" where
  "mk_match t a b pa pb \<equiv> \<lparr>Datum = t, A = a, B = b, PunkteA = pa, PunkteB = pb\<rparr>"

abbreviation mk_pending ::
  "int \<Rightarrow> string \<Rightarrow> string \<Rightarrow> int \<Rightarrow> int \<Rightarrow> bool \<Rightarrow> bool \<Rightarrow> pending_match" where
  "mk_pending t a b pa pb ca cb \<equiv>
     \<lparr>Datum = t, A = a, B = b, PunkteA = pa, PunkteB = pb, confA = ca, confB = cb\<rparr>"

section \<open>Auxiliary facts\<close>

subsection \<open>Rounding and the formula at equal ratings\<close>

lemma py_round_of_int: "py_round (of_int n) = n"
  unfolding py_round_def Let_def by simp

lemma calc_elo_real_equal_win: "calc_elo_real r r 1 32 = r + 16"
proof -
  have "of_int r + of_int 32 * (of_int 1 - 1 / (1 + 10 powr (of_int (r - r) / 400))) = (of_int (r + 16) :: real)"
    by simp
  then show ?thesis unfolding calc_elo_real_def Let_def by (simp only: py_round_of_int)
qed

lemma calc_elo_real_equal_loss: "calc_elo_real r r 0 32 = r - 16"
proof -
  have "of_int r + of_int 32 * (of_int 0 - 1 / (1 + 10 powr (of_int (r - r) / 400))) = (of_int (r - 16) :: real)"
    by simp
  then show ?thesis unfolding calc_elo_real_def Let_def by (simp only: py_round_of_int)
qed

lemma py_round_unique:
  assumes "of_int n - 1 / 2 < x" and "x < of_int n + 1 / 2"
  shows "py_round x = n"
proof -
  have "\<lfloor>x\<rfloor> = n \<or> \<lfloor>x\<rfloor> = n - 1"
    using assms by linarith
  then show ?thesis
  proof
    assume f: "\<lfloor>x\<rfloor> = n"
    then have "x - of_int \<lfloor>x\<rfloor> < 1 / 2" using assms by simp
    then show ?thesis using f by (simp add: py_round_def Let_def)
  next
    assume f: "\<lfloor>x\<rfloor> = n - 1"
    then have "1 / 2 < x - of_int \<lfloor>x\<rfloor>" using assms by simp
    then show ?thesis using f by (simp add: py_round_def Let_def)
  qed
qed

lemma root25_power: "0 < x \<Longrightarrow> ((x::real) ^ 25) powr (1 / 25) = x"
proof -
  assume x: "0 < x"
  have "(x ^ 25) powr (1 / 25) = (x powr 25) powr (1 / 25)"
    using x by (simp add: powr_realpow)
  also have "\<dots> = x powr (25 * (1 / 25))" by (rule powr_powr)
  also have "\<dots> = x" using x by simp
  finally show ?thesis .
qed

lemma root25_lower: "(1065 / 1000 :: real) < 10 powr (1 / 25)"
proof -
  have lo: "(1065 / 1000 :: real) ^ 25 < 10" by (simp add: power_divide)
  have "((1065 / 1000 :: real) ^ 25) powr (1 / 25) < 10 powr (1 / 25)"
    by (rule powr_less_mono2) (use lo in simp_all)
  moreover have "((1065 / 1000 :: real) ^ 25) powr (1 / 25) = 1065 / 1000"
    by (rule root25_power) simp
  ultimately show ?thesis by (simp only:)
qed

lemma root25_upper: "10 powr (1 / 25) < (12 / 10 :: real)"
proof -
  have hi: "10 < (12 / 10 :: real) ^ 25" by (simp add: power_divide)
  have "10 powr (1 / 25) < ((12 / 10 :: real) ^ 25) powr (1 / 25)"
    by (rule powr_less_mono2) (use hi in simp_all)
  moreover have "((12 / 10 :: real) ^ 25) powr (1 / 25) = 12 / 10"
    by (rule root25_power) simp
  ultimately show ?thesis by (simp only:)
qed

lemma calc_elo_real_1200_1216_loss: "calc_elo_real 1200 1216 0 32 = 1185"
proof -
  define t :: real where "t = 10 powr (1 / 25)"
  have t: "1065 / 1000 < t" "t < 12 / 10"
    using root25_lower root25_upper by (simp_all only: t_def)
  have e: "(of_int (1216 - 1200) / 400 :: real) = 1 / 25" by simp
  have pos: "0 < 1 + t" using t by linarith
  have up: "32 / (1 + t) < 155 / 10"
    using t pos by (simp add: pos_divide_less_eq)
  have low: "145 / 10 < 32 / (1 + t)"
    using t pos by (simp add: pos_less_divide_eq)
  have "of_int 1185 - 1 / 2 < 1200 - 32 / (1 + t)" using up by simp
  moreover have "1200 - 32 / (1 + t) < of_int 1185 + 1 / 2" using low by simp
  ultimately have "py_round (1200 - 32 / (1 + t)) = 1185"
    by (rule py_round_unique)
  moreover have "of_int 1200 + of_int 32 * (of_int 0 - 1 / (1 + 10 powr (of_int (1216 - 1200) / 400)))
      = 1200 - 32 / (1 + t)"
    unfolding e t_def by simp
  ultimately show ?thesis
    unfolding calc_elo_real_def Let_def by (simp only:)
qed

lemma calc_elo_real_1216_1200_win: "calc_elo_real 1216 1200 1 32 = 1231"
proof -
  define t :: real where "t = 10 powr (1 / 25)"
  have t: "1065 / 1000 < t" "t < 12 / 10"
    using root25_lower root25_upper by (simp_all only: t_def)
  have tpos: "0 < t" using t by linarith
  have e: "(of_int (1200 - 1216) / 400 :: real) = - (1 / 25)" by simp
  have inv: "10 powr (- (1 / 25)) = 1 / t"
    unfolding t_def by (rule powr_minus_divide)
  have frac: "1 - 1 / (1 + 1 / t) = 1 / (1 + t)"
    using tpos by (simp add: field_simps)
  have pos: "0 < 1 + t" using t by linarith
  have up: "32 / (1 + t) < 155 / 10"
    using t pos by (simp add: pos_divide_less_eq)
  have low: "145 / 10 < 32 / (1 + t)"
    using t pos by (simp add: pos_less_divide_eq)
  have "of_int 1231 - 1 / 2 < 1216 + 32 / (1 + t)" using low by simp
  moreover have "1216 + 32 / (1 + t) < of_int 1231 + 1 / 2" using up by simp
  ultimately have "py_round (1216 + 32 / (1 + t)) = 1231"
    by (rule py_round_unique)
  moreover have "of_int 1216 + of_int 32 * (of_int 1 - 1 / (1 + 10 powr (of_int (1200 - 1216) / 400)))
      = 1216 + 32 / (1 + t)"
    unfolding e inv using frac by simp
  ultimately show ?thesis
    unfolding calc_elo_real_def Let_def by (simp only:)
qed

subsection \<open>The loop of the rebuild as a fold\<close>

lemma bind_err_Inr [simp]: "bind_err (Inr x) f = f x"
  by (simp add: bind_err_def)

lemma bind_err_Inl [simp]: "bind_err (Inl e) f = Inl e"
  by (simp add: bind_err_def)

lemma map_Name_set_stats [simp]: "map Name (set_stats ps a e w l g) = map Name ps"
  by (simp add: set_stats_def)

lemma map_Pin_set_stats [simp]: "map Pin (set_stats ps a e w l g) = map Pin ps"
  by (simp add: set_stats_def)

lemma row_of_in: "a \<in> set (map Name ps) \<Longrightarrow> row_of ps a \<in> set ps \<and> Name (row_of ps a) = a"
proof -
  assume "a \<in> set (map Name ps)"
  then have ne: "filter (\<lambda>p. Name p = a) ps \<noteq> []"
    by (auto simp: filter_empty_conv)
  then have "hd (filter (\<lambda>p. Name p = a) ps) \<in> set (filter (\<lambda>p. Name p = a) ps)"
    by (rule hd_in_set)
  then show ?thesis by (simp add: row_of_def)
qed

lemma iat0_loc: "a \<in> set (map Name ps) \<Longrightarrow> iat0 (loc ps a col) = Inr (col (row_of ps a))"
proof -
  assume "a \<in> set (map Name ps)"
  then have ne: "filter (\<lambda>p. Name p = a) ps \<noteq> []"
    by (auto simp: filter_empty_conv)
  then show ?thesis
    by (cases "filter (\<lambda>p. Name p = a) ps") (simp_all add: iat0_def loc_def row_of_def)
qed

lemma replay_match_step: "replay_match calc ps row k = Inr (step calc k ps row)"
proof (cases "present ps row")
  case False
  then show ?thesis by (auto simp: replay_match_def step_def present_def Let_def)
next
  case True
  then have a: "A row \<in> set (map Name ps)" and b: "B row \<in> set (map Name ps)"
    by (simp_all add: present_def)
  have b1: "B row \<in> set (map Name (set_stats ps (A row) e w l g))" for e w l g
    using b by simp
  show ?thesis
    using True a b
    by (simp add: replay_match_def step_def Let_def iat0_loc [OF a] iat0_loc [OF b] iat0_loc [OF b1] apply_match_def)
qed

lemma replay_foldl: "replay calc ps rows k = Inr (foldl (step calc k) ps rows)"
  by (induction rows arbitrary: ps) (simp_all add: replay_match_step)

lemma rebuild_players_foldl:
  "rebuild_players argsort calc ps ms k =
     Inr (foldl (step calc k) (map reset_stats ps) (replayed argsort ms))"
  by (simp add: rebuild_players_def Let_def replay_foldl replayed_def)

lemma map_Name_step [simp]: "map Name (step calc k ps row) = map Name ps"
  by (simp add: step_def apply_match_def Let_def)

lemma map_Pin_step [simp]: "map Pin (step calc k ps row) = map Pin ps"
  by (simp add: step_def apply_match_def Let_def)

lemma map_Name_foldl_step [simp]: "map Name (foldl (step calc k) ps rows) = map Name ps"
  by (induction rows arbitrary: ps) simp_all

lemma map_Pin_foldl_step [simp]: "map Pin (foldl (step calc k) ps rows) = map Pin ps"
  by (induction rows arbitrary: ps) simp_all

lemma Name_reset_stats [simp]: "Name (reset_stats p) = Name p"
  by (simp add: reset_stats_def)

lemma Pin_reset_stats [simp]: "Pin (reset_stats p) = Pin p"
  by (simp add: reset_stats_def)

lemma map_Name_reset [simp]: "map Name (map reset_stats ps) = map Name ps"
  by (simp add: reset_stats_def)

lemma map_Pin_reset [simp]: "map Pin (map reset_stats ps) = map Pin ps"
  by (simp add: reset_stats_def)

subsection \<open>The sort\<close>

lemma argsort_positions:
  assumes "ascending_argsort argsort"
  shows "set (argsort keys) = {0..<length keys}"
proof -
  from assms have "mset (argsort keys) = mset [0..<length keys]"
    by (simp add: ascending_argsort_def)
  then have "set (argsort keys) = set [0..<length keys]" by (rule mset_eq_setD)
  then show ?thesis by simp
qed

lemma mset_sort_values:
  assumes "ascending_argsort argsort"
  shows "mset (sort_values argsort ms) = mset ms"
proof -
  from assms have "mset (argsort (map Datum ms)) = mset [0..<length ms]"
    by (simp add: ascending_argsort_def)
  then have "mset (map (\<lambda>i. ms ! i) (argsort (map Datum ms))) = mset (map (\<lambda>i. ms ! i) [0..<length ms])"
    by (simp only: mset_map)
  then show ?thesis by (simp add: sort_values_def map_nth)
qed

lemma set_sort_values: "ascending_argsort argsort \<Longrightarrow> set (sort_values argsort ms) = set ms"
  by (rule mset_eq_setD) (rule mset_sort_values)

lemma sorted_sort_values:
  assumes "ascending_argsort argsort"
  shows "sorted (map Datum (sort_values argsort ms))"
proof -
  let ?idx = "argsort (map Datum ms)"
  from assms have "sorted (map (\<lambda>i. map Datum ms ! i) ?idx)"
    by (simp add: ascending_argsort_def)
  moreover have "map (\<lambda>i. map Datum ms ! i) ?idx = map (\<lambda>i. Datum (ms ! i)) ?idx"
    using argsort_positions [OF assms, of "map Datum ms"] by (intro map_cong refl) simp
  ultimately show ?thesis by (simp add: sort_values_def comp_def)
qed

lemma replayed_sort_values: "ascending_argsort argsort \<Longrightarrow> replayed argsort ms = sort_values argsort ms"
  using argsort_positions [of argsort "[]"] by (simp add: replayed_def sort_values_def)

lemma ascending_stable_argsort: "ascending_argsort stable_argsort"
  by (simp add: ascending_argsort_def stable_argsort_def)

lemma ascending_reversing_argsort: "ascending_argsort reversing_argsort"
  by (simp add: ascending_argsort_def reversing_argsort_def)

lemma sorted_perm_unique:
  fixes xs ys :: "match list"
  assumes "mset ys = mset xs" and "sorted (map Datum ys)" and "inj_on Datum (set xs)"
  shows "sort_key Datum xs = ys"
proof (rule properties_for_sort_key)
  show "mset ys = mset xs" by fact
  show "sorted (map Datum ys)" by fact
  have set_eq: "set ys = set xs" using assms(1) by (rule mset_eq_setD)
  fix m assume m: "m \<in> set ys"
  have flt: "filter (\<lambda>x. Datum m = Datum x) zs = filter (\<lambda>x. m = x) zs" if "set zs \<subseteq> set xs" for zs
    using that m set_eq assms(3) by (intro filter_cong refl) (auto dest: inj_onD)
  have cnt: "filter (\<lambda>x. m = x) zs = replicate (count (mset zs) m) m" for zs :: "match list"
    by (induction zs) auto
  have "filter (\<lambda>x. Datum m = Datum x) ys = filter (\<lambda>x. m = x) ys"
    using set_eq by (intro flt) simp
  also have "\<dots> = filter (\<lambda>x. m = x) xs" by (simp only: cnt assms(1))
  also have "\<dots> = filter (\<lambda>x. Datum m = Datum x) xs" by (intro flt [symmetric]) simp
  finally show "filter (\<lambda>x. Datum m = Datum x) ys = filter (\<lambda>x. Datum m = Datum x) xs" .
qed

lemma sort_values_unique:
  assumes "ascending_argsort argsort" and "inj_on Datum (set ms)"
  shows "sort_values argsort ms = sort_key Datum ms"
  using sorted_perm_unique [OF mset_sort_values [OF assms(1)] sorted_sort_values [OF assms(1)] assms(2)]
  by simp

lemma sort_values_perm:
  assumes "ascending_argsort argsort" and "mset xs = mset ys" and "inj_on Datum (set xs)"
  shows "sort_values argsort xs = sort_values argsort ys"
proof -
  have "set ys = set xs" using assms(2) [symmetric] by (rule mset_eq_setD)
  with assms(3) have "inj_on Datum (set ys)" by simp
  then have "sort_values argsort ys = sort_key Datum ys" by (rule sort_values_unique [OF assms(1)])
  also have "\<dots> = sort_key Datum xs"
    using sorted_perm_unique [OF _ _ assms(3), of "sort_key Datum ys"] assms(2) by simp
  also have "\<dots> = sort_values argsort xs" by (rule sort_values_unique [OF assms(1) assms(3), symmetric])
  finally show ?thesis by simp
qed

lemma untouched_step:
  assumes "p \<in> set (step calc k ps row)" and "Name p \<noteq> A row" and "Name p \<noteq> B row"
  shows "p \<in> set ps"
  using assms by (auto simp: step_def apply_match_def Let_def set_stats_def split: if_splits)

lemma untouched_foldl:
  assumes "p \<in> set (foldl (step calc k) ps rows)"
    and "\<forall>m\<in>set rows. A m \<noteq> Name p \<and> B m \<noteq> Name p"
  shows "p \<in> set ps"
  using assms
proof (induction rows arbitrary: ps)
  case Nil
  then show ?case by simp
next
  case (Cons row rows)
  have "p \<in> set (foldl (step calc k) (step calc k ps row) rows)"
    using Cons.prems(1) by simp
  moreover have "\<forall>m\<in>set rows. A m \<noteq> Name p \<and> B m \<noteq> Name p"
    using Cons.prems(2) by simp
  ultimately have "p \<in> set (step calc k ps row)" by (rule Cons.IH)
  moreover have "Name p \<noteq> A row" "Name p \<noteq> B row"
    using Cons.prems(2) by auto
  ultimately show ?case by (rule untouched_step)
qed

subsection \<open>Counters, skipped matches, untouched columns\<close>

lemma counts_ok_set_stats:
  assumes "\<forall>p\<in>set ps. counts_ok p" and "w + l = g" and "0 \<le> w" and "0 \<le> l"
  shows "\<forall>p\<in>set (set_stats ps a e w l g). counts_ok p"
  using assms by (auto simp: set_stats_def counts_ok_def)

lemma counts_ok_step:
  assumes inv: "\<forall>p\<in>set ps. counts_ok p"
  shows "\<forall>p\<in>set (step calc k ps row). counts_ok p"
proof (cases "present ps row")
  case False
  then show ?thesis using inv by (simp add: step_def)
next
  case True
  define sa :: int where "sa = (if PunkteA row > PunkteB row then 1 else 0)"
  define ps1 where "ps1 = set_stats ps (A row) (calc (ELO (row_of ps (A row))) (ELO (row_of ps (B row))) sa k)
      (Siege (row_of ps (A row)) + sa) (Niederlagen (row_of ps (A row)) + (1 - sa)) (Spiele (row_of ps (A row)) + 1)"
  have sa: "0 \<le> sa" "0 \<le> 1 - sa" by (simp_all add: sa_def)
  from True have a: "A row \<in> set (map Name ps)" and b: "B row \<in> set (map Name ps)"
    by (simp_all add: present_def)
  from row_of_in [OF a] inv have oka: "counts_ok (row_of ps (A row))" by blast
  have inv1: "\<forall>p\<in>set ps1. counts_ok p"
    unfolding ps1_def using oka sa
    by (intro counts_ok_set_stats [OF inv]) (simp_all add: counts_ok_def)
  have b1: "B row \<in> set (map Name ps1)" using b by (simp add: ps1_def)
  from row_of_in [OF b1] inv1 have okb: "counts_ok (row_of ps1 (B row))" by blast
  have "\<forall>p\<in>set (set_stats ps1 (B row) (calc (ELO (row_of ps (B row))) (ELO (row_of ps (A row))) (1 - sa) k)
      (Siege (row_of ps1 (B row)) + (1 - sa)) (Niederlagen (row_of ps1 (B row)) + sa) (Spiele (row_of ps1 (B row)) + 1)). counts_ok p"
    using okb sa by (intro counts_ok_set_stats [OF inv1]) (simp_all add: counts_ok_def)
  then show ?thesis
    using True by (simp add: step_def apply_match_def Let_def ps1_def sa_def)
qed

lemma counts_ok_foldl:
  "\<forall>p\<in>set ps. counts_ok p \<Longrightarrow> \<forall>p\<in>set (foldl (step calc k) ps rows). counts_ok p"
proof (induction rows arbitrary: ps)
  case Nil
  then show ?case by simp
next
  case (Cons row rows)
  from Cons.prems have "\<forall>p\<in>set (step calc k ps row). counts_ok p" by (rule counts_ok_step)
  then have "\<forall>p\<in>set (foldl (step calc k) (step calc k ps row) rows). counts_ok p" by (rule Cons.IH)
  then show ?case by simp
qed

lemma counts_ok_reset: "\<forall>p\<in>set (map reset_stats ps). counts_ok p"
  by (simp add: counts_ok_def reset_stats_def)

lemma present_cong: "map Name ps' = map Name ps \<Longrightarrow> present ps' row = present ps row"
  by (simp add: present_def)

lemma foldl_step_filter:
  "map Name ps' = map Name ps \<Longrightarrow>
   foldl (step calc k) ps' (filter (present ps) rows) = foldl (step calc k) ps' rows"
proof (induction rows arbitrary: ps')
  case Nil
  then show ?case by simp
next
  case (Cons row rows)
  show ?case
  proof (cases "present ps row")
    case True
    have "map Name (step calc k ps' row) = map Name ps" using Cons.prems by simp
    then have "foldl (step calc k) (step calc k ps' row) (filter (present ps) rows) = foldl (step calc k) (step calc k ps' row) rows"
      by (rule Cons.IH)
    with True show ?thesis by simp
  next
    case False
    then have "step calc k ps' row = ps'"
      by (simp add: step_def present_cong [OF Cons.prems])
    moreover have "foldl (step calc k) ps' (filter (present ps) rows) = foldl (step calc k) ps' rows"
      using Cons.prems by (rule Cons.IH)
    ultimately show ?thesis using False by simp
  qed
qed

lemma same_identity_iff: "same_identity p p' \<longleftrightarrow> Name p' = Name p \<and> Pin p' = Pin p"
  by (cases p, cases p') (auto simp: same_identity_def)

lemma same_identity_set_stats:
  "list_all2 same_identity ps ps' \<Longrightarrow> list_all2 same_identity ps (set_stats ps' a e w l g)"
  unfolding set_stats_def list_all2_map2
  by (erule list_all2_mono) (auto simp: same_identity_iff)

lemma same_identity_step:
  "list_all2 same_identity ps ps' \<Longrightarrow> list_all2 same_identity ps (step calc k ps' row)"
  by (simp add: step_def apply_match_def Let_def same_identity_set_stats)

lemma same_identity_foldl:
  "list_all2 same_identity ps ps' \<Longrightarrow> list_all2 same_identity ps (foldl (step calc k) ps' rows)"
  by (induction rows arbitrary: ps') (simp_all add: same_identity_step)

lemma same_identity_reset: "list_all2 same_identity ps (map reset_stats ps)"
  unfolding list_all2_map2
  by (rule list_all2_refl) (simp add: same_identity_iff reset_stats_def)

subsection \<open>The history and the rebuild in step\<close>












subsection \<open>The handlers\<close>

lemma to_confirm_iff: "idx \<in> set (to_confirm cp pend) \<longleftrightarrow> idx < length pend \<and> awaiting cp (pend ! idx)"
  by (auto simp: to_confirm_def)

lemma confirm_handler_eq:
  assumes "idx < length (pending st)"
  shows "confirm_handler argsort calc idx cp st =
     (let r' = set_flag cp (pending st ! idx) in
      if confA r' \<and> confB r' then
         Inr \<lparr>players = foldl (step calc 32) (map reset_stats (players st)) (replayed argsort (matches st @ [match.truncate r'])),
              matches = matches st @ [match.truncate r'],
              pending = take idx (pending st) @ drop (Suc idx) (pending st)\<rparr>
      else Inr (st\<lparr>pending := (pending st)[idx := r']\<rparr>))"
  using assms
  by (auto simp: confirm_handler_def Let_def set_flag_def df_drop_def rebuild_players_foldl
      take_update_cancel drop_update_cancel)

lemma one_sided_submit:
  "one_sided (pending st) \<Longrightarrow> submit ts cp b pa pb st = Inr st' \<Longrightarrow> one_sided (pending st')"
  by (auto simp: submit_def one_sided_def split: if_splits)

lemma one_sided_take_drop: "one_sided pend \<Longrightarrow> one_sided (take i pend @ drop j pend)"
proof -
  assume "one_sided pend"
  moreover have "set (take i pend @ drop j pend) \<subseteq> set pend"
    using set_take_subset [of i pend] set_drop_subset [of j pend] by simp
  ultimately show ?thesis unfolding one_sided_def by blast
qed

lemma one_sided_update:
  "one_sided pend \<Longrightarrow> \<not> (confA r \<and> confB r) \<Longrightarrow> one_sided (pend[i := r])"
proof -
  assume "one_sided pend" and "\<not> (confA r \<and> confB r)"
  moreover have "set (pend[i := r]) \<subseteq> insert r (set pend)"
    by (rule set_update_subset_insert)
  ultimately show ?thesis unfolding one_sided_def by blast
qed

lemma one_sided_reject:
  "one_sided (pending st) \<Longrightarrow> reject_handler idx st = Inr st' \<Longrightarrow> one_sided (pending st')"
  by (auto simp: reject_handler_def df_drop_def one_sided_take_drop split: if_splits)

lemma one_sided_confirm:
  assumes "one_sided (pending st)" and "confirm_handler argsort calc idx cp st = Inr st'"
  shows "one_sided (pending st')"
proof -
  have idx: "idx < length (pending st)"
    using assms(2) by (auto simp: confirm_handler_def split: if_splits)
  let ?r = "set_flag cp (pending st ! idx)"
  show ?thesis
  proof (cases "confA ?r \<and> confB ?r")
    case True
    with assms(2) idx have "pending st' = take idx (pending st) @ drop (Suc idx) (pending st)"
      by (auto simp: confirm_handler_eq Let_def)
    with assms(1) show ?thesis
      by (simp add: one_sided_take_drop)
  next
    case False
    with assms(2) idx have "pending st' = (pending st)[idx := ?r]"
      by (auto simp: confirm_handler_eq Let_def)
    with assms(1) False show ?thesis
      by (simp add: one_sided_update)
  qed
qed

subsection \<open>The store and evaluation\<close>

lemma replay_store_eq:
  "r < length h \<Longrightarrow> replay_store calc h r rows k = Inr (h[r := foldl (step calc k) (h ! r) rows])"
proof (induction rows arbitrary: h)
  case Nil
  then show ?case by simp
next
  case (Cons row rows)
  from Cons.prems have "r < length (h[r := step calc k (h ! r) row])" by simp
  from Cons.IH [OF this] Cons.prems show ?case
    by (simp add: replay_match_step)
qed

lemma rebuild_players_store_eq:
  "rebuild_players_store argsort calc h r ms k =
     Inr (length h, h @ [foldl (step calc k) (map reset_stats (h ! r)) (replayed argsort ms)])"
proof (cases "ms = []")
  case True
  then show ?thesis
    by (simp add: rebuild_players_store_def Let_def replayed_def)
next
  case False
  have "length h < length ((h @ [h ! r])[length h := map reset_stats ((h @ [h ! r]) ! length h)])"
    by simp
  from replay_store_eq [OF this] False show ?thesis
    by (simp add: rebuild_players_store_def Let_def replayed_def)
qed

lemmas eval_defs = rebuild_players_foldl replayed_def sort_values_def stable_argsort_def
  reversing_argsort_def step_def present_def apply_match_def row_of_def set_stats_def
  reset_stats_def Let_def calc_elo_real_equal_win calc_elo_real_equal_loss


section \<open>The claims\<close>

text \<open>
  C1 speaks of the values that \<^verbatim>\<open>calc_elo\<close> returns in the double arithmetic of the
  machine. That arithmetic is a parameter here, so C1 has no theorem. Of the formula over
  the reals, \<open>calc_elo_real_equal_win\<close> and \<open>calc_elo_real_equal_loss\<close> give 1216 and 1184
  at 1200 against 1200 with \<open>k = 32\<close>.
\<close>




text \<open>
  C3. A match with a player who is not on the roster is skipped: the rebuild raises no
  error; the iteration for such a match returns the roster as it was, and the replay goes
  on with the matches after it; the rebuild over a history is the replay, from the reset
  roster and in the order of the sort, of those matches only whose two players are on
  the roster.
\<close>

theorem rebuild_skips_absent:
  "(\<exists>ps'. rebuild_players argsort calc ps ms k = Inr ps') \<and>
   (A row \<notin> set (map Name ps) \<or> B row \<notin> set (map Name ps) \<longrightarrow>
      replay_match calc ps row k = Inr ps \<and>
      replay calc ps (row # rows) k = replay calc ps rows k) \<and>
   (ms \<noteq> [] \<longrightarrow>
      rebuild_players argsort calc ps ms k =
        replay calc (map reset_stats ps)
          (filter (\<lambda>m. A m \<in> set (map Name ps) \<and> B m \<in> set (map Name ps)) (sort_values argsort ms)) k)"
proof (intro conjI impI)
  show "\<exists>ps'. rebuild_players argsort calc ps ms k = Inr ps'" by (simp add: rebuild_players_foldl)
next
  assume "A row \<notin> set (map Name ps) \<or> B row \<notin> set (map Name ps)"
  then have "step calc k ps row = ps" by (auto simp: step_def present_def)
  then show "replay_match calc ps row k = Inr ps"
    and "replay calc ps (row # rows) k = replay calc ps rows k"
    by (simp_all add: replay_match_step)
next
  assume ne: "ms \<noteq> []"
  have on_roster: "(\<lambda>m. A m \<in> set (map Name ps) \<and> B m \<in> set (map Name ps)) = present ps"
    by (rule ext) (simp only: present_def)
  have "foldl (step calc k) (map reset_stats ps) (filter (present ps) (sort_values argsort ms))
      = foldl (step calc k) (map reset_stats ps) (sort_values argsort ms)"
    by (rule foldl_step_filter) (rule map_Name_reset)
  then show "rebuild_players argsort calc ps ms k =
      replay calc (map reset_stats ps)
        (filter (\<lambda>m. A m \<in> set (map Name ps) \<and> B m \<in> set (map Name ps)) (sort_values argsort ms)) k"
    using ne by (simp only: on_roster rebuild_players_foldl replay_foldl replayed_def if_False)
qed

text \<open>
  The roster holds A and B; the match of A against the deleted C changes nothing, and the
  later match of A against B is replayed.
\<close>

theorem rebuild_skips_absent_witness:
  "B (mk_match 1 ''A'' ''C'' 11 8) \<notin> set (map Name [mk_player ''A'' 1300 4 1 5, mk_player ''B'' 1100 1 4 5]) \<and>
   replay_match calc_elo_real [mk_player ''A'' 1300 4 1 5, mk_player ''B'' 1100 1 4 5]
       (mk_match 1 ''A'' ''C'' 11 8) 32
     = Inr [mk_player ''A'' 1300 4 1 5, mk_player ''B'' 1100 1 4 5] \<and>
   rebuild_players stable_argsort calc_elo_real [mk_player ''A'' 1300 4 1 5, mk_player ''B'' 1100 1 4 5]
     [mk_match 1 ''A'' ''C'' 11 8, mk_match 2 ''A'' ''B'' 11 8] 32
     = Inr [mk_player ''A'' 1216 1 0 1, mk_player ''B'' 1184 0 1 1] \<and>
   replay calc_elo_real [mk_player ''A'' 1200 0 0 0, mk_player ''B'' 1200 0 0 0]
     [mk_match 2 ''A'' ''B'' 11 8] 32
     = Inr [mk_player ''A'' 1216 1 0 1, mk_player ''B'' 1184 0 1 1]"
  using rebuild_skips_absent [of stable_argsort calc_elo_real
      "[mk_player ''A'' 1300 4 1 5, mk_player ''B'' 1100 1 4 5]"
      "[mk_match 1 ''A'' ''C'' 11 8, mk_match 2 ''A'' ''B'' 11 8]" 32 "mk_match 1 ''A'' ''C'' 11 8" "[]"]
  by (simp add: eval_defs replay_foldl)

text \<open>
  C6. For every match history the rebuild is the replay that starts from the roster
  with every rating at 1200 and every counter at 0, whatever the roster stored before:
  with an empty history it returns exactly that roster; a player who takes part in no
  match of the history comes out with 1200 and three zeros; and two rosters that agree
  after the reset give the same result.
\<close>

theorem rebuild_resets:
  assumes "ascending_argsort argsort"
  shows "rebuild_players argsort calc ps [] k = Inr (map reset_stats ps) \<and>
   rebuild_players argsort calc ps ms k = replay calc (map reset_stats ps) (sort_values argsort ms) k \<and>
   (\<forall>p\<in>set (map reset_stats ps). ELO p = 1200 \<and> Siege p = 0 \<and> Niederlagen p = 0 \<and> Spiele p = 0) \<and>
   (\<exists>ps'. rebuild_players argsort calc ps ms k = Inr ps' \<and>
       (\<forall>p\<in>set ps'. (\<forall>m\<in>set ms. A m \<noteq> Name p \<and> B m \<noteq> Name p) \<longrightarrow>
           ELO p = 1200 \<and> Siege p = 0 \<and> Niederlagen p = 0 \<and> Spiele p = 0)) \<and>
   (map reset_stats ps = map reset_stats qs \<longrightarrow>
      rebuild_players argsort calc ps ms k = rebuild_players argsort calc qs ms k)"
proof (intro conjI impI)
  have rows: "replayed argsort ms = sort_values argsort ms"
    using assms by (rule replayed_sort_values)
  show "rebuild_players argsort calc ps [] k = Inr (map reset_stats ps)"
    by (simp add: rebuild_players_def)
  show "rebuild_players argsort calc ps ms k = replay calc (map reset_stats ps) (sort_values argsort ms) k"
    by (simp only: rebuild_players_foldl replay_foldl rows)
  show reset: "\<forall>p\<in>set (map reset_stats ps). ELO p = 1200 \<and> Siege p = 0 \<and> Niederlagen p = 0 \<and> Spiele p = 0"
    by (simp add: reset_stats_def)
  have "\<forall>p\<in>set (foldl (step calc k) (map reset_stats ps) (sort_values argsort ms)).
      (\<forall>m\<in>set ms. A m \<noteq> Name p \<and> B m \<noteq> Name p) \<longrightarrow>
        ELO p = 1200 \<and> Siege p = 0 \<and> Niederlagen p = 0 \<and> Spiele p = 0"
  proof (intro ballI impI)
    fix p
    assume p: "p \<in> set (foldl (step calc k) (map reset_stats ps) (sort_values argsort ms))"
      and "\<forall>m\<in>set ms. A m \<noteq> Name p \<and> B m \<noteq> Name p"
    then have "\<forall>m\<in>set (sort_values argsort ms). A m \<noteq> Name p \<and> B m \<noteq> Name p"
      by (simp only: set_sort_values [OF assms])
    with p have "p \<in> set (map reset_stats ps)" by (rule untouched_foldl)
    with reset show "ELO p = 1200 \<and> Siege p = 0 \<and> Niederlagen p = 0 \<and> Spiele p = 0"
      by blast
  qed
  then show "\<exists>ps'. rebuild_players argsort calc ps ms k = Inr ps' \<and>
       (\<forall>p\<in>set ps'. (\<forall>m\<in>set ms. A m \<noteq> Name p \<and> B m \<noteq> Name p) \<longrightarrow>
           ELO p = 1200 \<and> Siege p = 0 \<and> Niederlagen p = 0 \<and> Spiele p = 0)"
    by (simp only: rebuild_players_foldl rows) blast
  show "rebuild_players argsort calc ps ms k = rebuild_players argsort calc qs ms k"
    if "map reset_stats ps = map reset_stats qs"
    using that by (simp only: rebuild_players_foldl)
qed

text \<open>
  A and B play, C does not: C comes out of the rebuild with 1200 and three zeros instead
  of its stored 1500, 7, 0, 7, and the stored values of A and B do not matter either.
\<close>

theorem rebuild_resets_witness:
  "rebuild_players stable_argsort calc_elo_real
       [mk_player ''A'' 1300 4 1 5, mk_player ''B'' 1100 1 4 5, mk_player ''C'' 1500 7 0 7] [] 32
     = Inr [mk_player ''A'' 1200 0 0 0, mk_player ''B'' 1200 0 0 0, mk_player ''C'' 1200 0 0 0] \<and>
   rebuild_players stable_argsort calc_elo_real
       [mk_player ''A'' 1300 4 1 5, mk_player ''B'' 1100 1 4 5, mk_player ''C'' 1500 7 0 7]
       [mk_match 2 ''A'' ''B'' 11 8] 32
     = Inr [mk_player ''A'' 1216 1 0 1, mk_player ''B'' 1184 0 1 1, mk_player ''C'' 1200 0 0 0] \<and>
   map reset_stats [mk_player ''A'' 1300 4 1 5, mk_player ''B'' 1100 1 4 5, mk_player ''C'' 1500 7 0 7]
     = map reset_stats [mk_player ''A'' 900 0 7 7, mk_player ''B'' 1500 7 0 7, mk_player ''C'' 1 1 1 1] \<and>
   rebuild_players stable_argsort calc_elo_real
       [mk_player ''A'' 900 0 7 7, mk_player ''B'' 1500 7 0 7, mk_player ''C'' 1 1 1 1]
       [mk_match 2 ''A'' ''B'' 11 8] 32
     = Inr [mk_player ''A'' 1216 1 0 1, mk_player ''B'' 1184 0 1 1, mk_player ''C'' 1200 0 0 0]"
  using rebuild_resets [OF ascending_stable_argsort, of calc_elo_real
      "[mk_player ''A'' 1300 4 1 5, mk_player ''B'' 1100 1 4 5, mk_player ''C'' 1500 7 0 7]" 32
      "[mk_match 2 ''A'' ''B'' 11 8]"
      "[mk_player ''A'' 900 0 7 7, mk_player ''B'' 1500 7 0 7, mk_player ''C'' 1 1 1 1]"]
  by (simp add: eval_defs)

text \<open>
  C7. In the roster that the rebuild returns, every player has wins plus losses equal
  to games, and none of the three counters is negative.
\<close>

theorem rebuild_counts:
  "\<exists>ps'. rebuild_players argsort calc ps ms k = Inr ps' \<and>
     (\<forall>p\<in>set ps'. Siege p + Niederlagen p = Spiele p \<and>
        0 \<le> Siege p \<and> 0 \<le> Niederlagen p \<and> 0 \<le> Spiele p)"
  using counts_ok_foldl [OF counts_ok_reset, of calc k ps "replayed argsort ms"]
  by (simp add: rebuild_players_foldl counts_ok_def)

theorem rebuild_counts_witness:
  "rebuild_players stable_argsort calc_elo_real
       [mk_player ''A'' 1300 4 (-1) 5, mk_player ''B'' 1100 1 4 (-5)]
       [mk_match 2 ''A'' ''B'' 11 8] 32
     = Inr [mk_player ''A'' 1216 1 0 1, mk_player ''B'' 1184 0 1 1]"
  using rebuild_counts [of stable_argsort calc_elo_real
      "[mk_player ''A'' 1300 4 (-1) 5, mk_player ''B'' 1100 1 4 (-5)]"
      "[mk_match 2 ''A'' ''B'' 11 8]" 32]
  by (simp add: eval_defs)

text \<open>
  C5, as amended. The rebuild replays the matches in ascending order of their
  timestamps, rows with the same timestamp in the order in which the sort of the library
  leaves them, which need not be the stored one. Two match lists with the same rows in
  different order, in which rows with the same timestamp are the same row, give the same
  roster.
\<close>

theorem rebuild_order_independent:
  assumes "ascending_argsort argsort"
  shows "rebuild_players argsort calc ps ms k
           = replay calc (map reset_stats ps) (sort_values argsort ms) k \<and>
   sorted (map Datum (sort_values argsort ms)) \<and> mset (sort_values argsort ms) = mset ms \<and>
   (mset xs = mset ys \<and> inj_on Datum (set xs) \<longrightarrow>
      rebuild_players argsort calc ps xs k = rebuild_players argsort calc ps ys k)"
proof (intro conjI impI)
  show "rebuild_players argsort calc ps ms k = replay calc (map reset_stats ps) (sort_values argsort ms) k"
    by (simp only: rebuild_players_foldl replay_foldl replayed_sort_values [OF assms])
  show "sorted (map Datum (sort_values argsort ms))" using assms by (rule sorted_sort_values)
  show "mset (sort_values argsort ms) = mset ms" using assms by (rule mset_sort_values)
  assume "mset xs = mset ys \<and> inj_on Datum (set xs)"
  then have "sort_values argsort xs = sort_values argsort ys"
    using sort_values_perm [OF assms] by blast
  then show "rebuild_players argsort calc ps xs k = rebuild_players argsort calc ps ys k"
    by (simp only: rebuild_players_foldl replayed_sort_values [OF assms])
qed

text \<open>
  A beats B at time 1 and C at time 2, stored in either order: both rebuilds replay the
  match against B first, so B ends at 1184 and C, who meets A at 1216, at 1185.
\<close>

theorem rebuild_order_independent_witness:
  "mset [mk_match 2 ''A'' ''C'' 11 8, mk_match 1 ''A'' ''B'' 11 8]
     = mset [mk_match 1 ''A'' ''B'' 11 8, mk_match 2 ''A'' ''C'' 11 8] \<and>
   inj_on Datum (set [mk_match 2 ''A'' ''C'' 11 8, mk_match 1 ''A'' ''B'' 11 8]) \<and>
   rebuild_players stable_argsort calc_elo_real
       [mk_player ''A'' 0 0 0 0, mk_player ''B'' 0 0 0 0, mk_player ''C'' 0 0 0 0]
       [mk_match 2 ''A'' ''C'' 11 8, mk_match 1 ''A'' ''B'' 11 8] 32
     = Inr [mk_player ''A'' 1231 2 0 2, mk_player ''B'' 1184 0 1 1,
            mk_player ''C'' 1185 0 1 1] \<and>
   rebuild_players stable_argsort calc_elo_real
       [mk_player ''A'' 0 0 0 0, mk_player ''B'' 0 0 0 0, mk_player ''C'' 0 0 0 0]
       [mk_match 1 ''A'' ''B'' 11 8, mk_match 2 ''A'' ''C'' 11 8] 32
     = Inr [mk_player ''A'' 1231 2 0 2, mk_player ''B'' 1184 0 1 1,
            mk_player ''C'' 1185 0 1 1]"
  using rebuild_order_independent [OF ascending_stable_argsort, of calc_elo_real
      "[mk_player ''A'' 0 0 0 0, mk_player ''B'' 0 0 0 0, mk_player ''C'' 0 0 0 0]"
      "[]" 32
      "[mk_match 2 ''A'' ''C'' 11 8, mk_match 1 ''A'' ''B'' 11 8]"
      "[mk_match 1 ''A'' ''B'' 11 8, mk_match 2 ''A'' ''C'' 11 8]"]
  by (simp add: eval_defs calc_elo_real_1200_1216_loss calc_elo_real_1216_1200_win add_mset_commute)

text \<open>
  C5 as stated fails twice. Two matches of A with the same timestamp, stored in the two
  possible orders: the opponent that is replayed second loses against a rating of 1216
  and ends at 1185, the other at 1184, so the two rosters differ, under the sort that
  keeps tied rows in stored order and under the one that reverses them. And the second
  sort orders by ascending timestamp without being stable: it replays the two tied rows
  in the reverse of their stored order.
\<close>

theorem rebuild_order_independent_counterexample:
  "mset [mk_match 1 ''A'' ''B'' 11 8, mk_match 1 ''A'' ''C'' 11 8]
     = mset [mk_match 1 ''A'' ''C'' 11 8, mk_match 1 ''A'' ''B'' 11 8] \<and>
   rebuild_players stable_argsort calc_elo_real
       [mk_player ''A'' 1200 0 0 0, mk_player ''B'' 1200 0 0 0, mk_player ''C'' 1200 0 0 0]
       [mk_match 1 ''A'' ''B'' 11 8, mk_match 1 ''A'' ''C'' 11 8] 32
     = Inr [mk_player ''A'' 1231 2 0 2, mk_player ''B'' 1184 0 1 1,
            mk_player ''C'' 1185 0 1 1] \<and>
   rebuild_players stable_argsort calc_elo_real
       [mk_player ''A'' 1200 0 0 0, mk_player ''B'' 1200 0 0 0, mk_player ''C'' 1200 0 0 0]
       [mk_match 1 ''A'' ''C'' 11 8, mk_match 1 ''A'' ''B'' 11 8] 32
     = Inr [mk_player ''A'' 1231 2 0 2, mk_player ''B'' 1185 0 1 1,
            mk_player ''C'' 1184 0 1 1] \<and>
   rebuild_players stable_argsort calc_elo_real
       [mk_player ''A'' 1200 0 0 0, mk_player ''B'' 1200 0 0 0, mk_player ''C'' 1200 0 0 0]
       [mk_match 1 ''A'' ''B'' 11 8, mk_match 1 ''A'' ''C'' 11 8] 32
     \<noteq> rebuild_players stable_argsort calc_elo_real
       [mk_player ''A'' 1200 0 0 0, mk_player ''B'' 1200 0 0 0, mk_player ''C'' 1200 0 0 0]
       [mk_match 1 ''A'' ''C'' 11 8, mk_match 1 ''A'' ''B'' 11 8] 32 \<and>
   rebuild_players reversing_argsort calc_elo_real
       [mk_player ''A'' 1200 0 0 0, mk_player ''B'' 1200 0 0 0, mk_player ''C'' 1200 0 0 0]
       [mk_match 1 ''A'' ''B'' 11 8, mk_match 1 ''A'' ''C'' 11 8] 32
     \<noteq> rebuild_players reversing_argsort calc_elo_real
       [mk_player ''A'' 1200 0 0 0, mk_player ''B'' 1200 0 0 0, mk_player ''C'' 1200 0 0 0]
       [mk_match 1 ''A'' ''C'' 11 8, mk_match 1 ''A'' ''B'' 11 8] 32 \<and>
   ascending_argsort reversing_argsort \<and>
   sort_values reversing_argsort [mk_match 1 ''A'' ''B'' 11 8, mk_match 1 ''A'' ''C'' 11 8]
     = [mk_match 1 ''A'' ''C'' 11 8, mk_match 1 ''A'' ''B'' 11 8]"
  by (simp add: eval_defs calc_elo_real_1200_1216_loss calc_elo_real_1216_1200_win add_mset_commute ascending_reversing_argsort)

text \<open>
  C10. The rebuild works on a copy: it returns a reference to a new frame and leaves
  every frame that existed before, the roster passed to it among them, as it was. The
  new frame holds the result of \<open>rebuild_players\<close>; it has the rows of the input in the
  same order with the same names and the same \<open>Pin\<close>, and each row differs from the input
  row in the rating and the three counters at most.
\<close>

theorem rebuild_keeps_input:
  assumes "players_df < length h"
  shows "\<exists>new h'. rebuild_players_store argsort calc h players_df ms k = Inr (new, h') \<and>
           new \<noteq> players_df \<and> h' ! players_df = h ! players_df \<and> take (length h) h' = h \<and>
           rebuild_players argsort calc (h ! players_df) ms k = Inr (h' ! new) \<and>
           map Name (h' ! new) = map Name (h ! players_df) \<and>
           map Pin (h' ! new) = map Pin (h ! players_df) \<and>
           list_all2 same_identity (h ! players_df) (h' ! new)"
  using assms
  by (simp add: rebuild_players_store_eq rebuild_players_foldl nth_append
      same_identity_foldl [OF same_identity_reset])

theorem rebuild_keeps_input_witness:
  "rebuild_players_store stable_argsort calc_elo_real [[mk_player ''A'' 1500 3 2 5, mk_player ''B'' 1000 0 0 0]] 0
       [mk_match 1 ''A'' ''B'' 11 8] 32 =
     Inr (1, [[mk_player ''A'' 1500 3 2 5, mk_player ''B'' 1000 0 0 0],
              [mk_player ''A'' 1216 1 0 1, mk_player ''B'' 1184 0 1 1]])"
  using rebuild_keeps_input [of 0 "[[mk_player ''A'' 1500 3 2 5, mk_player ''B'' 1000 0 0 0]]"
      stable_argsort calc_elo_real "[mk_match 1 ''A'' ''B'' 11 8]" 32]
  by (simp add: rebuild_players_store_eq eval_defs)

text \<open>
  C8. A report of a player against itself fails with \<open>InvalidInput\<close> and yields no new
  state. Any other report appends exactly one pending row, confirmed by the reporter and
  not by the opponent, stamped with the reading of the clock; the roster and the
  confirmed history stay as they were.
\<close>

theorem submit_creates_pending:
  "(cp = b \<longrightarrow> submit ts cp b pa pb st = Inl InvalidInput) \<and>
   (cp \<noteq> b \<longrightarrow> (\<exists>st' row. submit ts cp b pa pb st = Inr st' \<and>
        pending st' = pending st @ [row] \<and> players st' = players st \<and> matches st' = matches st \<and>
        Datum row = ts \<and> A row = cp \<and> B row = b \<and> PunkteA row = pa \<and> PunkteB row = pb \<and>
        confA row \<and> \<not> confB row))"
  by (simp add: submit_def)

theorem submit_creates_pending_witness:
  "submit 7 ''A'' ''A'' 11 8 \<lparr>players = [mk_player ''A'' 1200 0 0 0, mk_player ''B'' 1200 0 0 0],
       matches = [], pending = []\<rparr> = Inl InvalidInput \<and>
   submit 7 ''A'' ''B'' 11 8 \<lparr>players = [mk_player ''A'' 1200 0 0 0, mk_player ''B'' 1200 0 0 0],
       matches = [], pending = []\<rparr>
     = Inr \<lparr>players = [mk_player ''A'' 1200 0 0 0, mk_player ''B'' 1200 0 0 0],
            matches = [], pending = [mk_pending 7 ''A'' ''B'' 11 8 True False]\<rparr>"
  using submit_creates_pending [of "''A''" "''A''" 7 11 8
      "\<lparr>players = [mk_player ''A'' 1200 0 0 0, mk_player ''B'' 1200 0 0 0], matches = [], pending = []\<rparr>"]
    submit_creates_pending [of "''A''" "''B''" 7 11 8
      "\<lparr>players = [mk_player ''A'' 1200 0 0 0, mk_player ''B'' 1200 0 0 0], matches = [], pending = []\<rparr>"]
  by (simp add: submit_def)

text \<open>
  C9. The handler of the reject button removes the row with the given label whatever
  its flags, and changes neither the roster nor the confirmed history. For every row
  shown to the player the click runs that handler. A label that the pending table does
  not have is a click without a button: the state stays as it is; the handler itself
  would stop with the not-found error of the table before any change.
\<close>

theorem reject_removes_pending:
  "(idx < length (pending st) \<longrightarrow>
      (\<exists>st'. reject_handler idx st = Inr st' \<and>
         pending st' = take idx (pending st) @ drop (Suc idx) (pending st) \<and>
         length (pending st') + 1 = length (pending st) \<and>
         players st' = players st \<and> matches st' = matches st)) \<and>
   (idx \<in> set (to_confirm cp (pending st)) \<longrightarrow> reject idx cp st = reject_handler idx st) \<and>
   (\<not> idx < length (pending st) \<longrightarrow> reject idx cp st = Inr st \<and> reject_handler idx st = Inl KeyError)"
  by (auto simp: reject_def reject_handler_def df_drop_def to_confirm_iff)

theorem reject_removes_pending_witness:
  "reject 0 ''B'' \<lparr>players = [mk_player ''A'' 1200 0 0 0, mk_player ''B'' 1200 0 0 0],
       matches = [], pending = [mk_pending 7 ''A'' ''B'' 11 8 True False]\<rparr>
     = Inr \<lparr>players = [mk_player ''A'' 1200 0 0 0, mk_player ''B'' 1200 0 0 0],
            matches = [], pending = []\<rparr> \<and>
   reject 1 ''B'' \<lparr>players = [mk_player ''A'' 1200 0 0 0, mk_player ''B'' 1200 0 0 0],
       matches = [], pending = [mk_pending 7 ''A'' ''B'' 11 8 True False]\<rparr>
     = Inr \<lparr>players = [mk_player ''A'' 1200 0 0 0, mk_player ''B'' 1200 0 0 0],
            matches = [], pending = [mk_pending 7 ''A'' ''B'' 11 8 True False]\<rparr>"
  using reject_removes_pending [of 0
      "\<lparr>players = [mk_player ''A'' 1200 0 0 0, mk_player ''B'' 1200 0 0 0],
        matches = [], pending = [mk_pending 7 ''A'' ''B'' 11 8 True False]\<rparr>" "''B''"]
    reject_removes_pending [of 1
      "\<lparr>players = [mk_player ''A'' 1200 0 0 0, mk_player ''B'' 1200 0 0 0],
        matches = [], pending = [mk_pending 7 ''A'' ''B'' 11 8 True False]\<rparr>" "''B''"]
  by (simp add: reject_def reject_handler_def df_drop_def to_confirm_iff awaiting_def)

text \<open>
  C4. For the pending row with label \<open>idx\<close> and the row \<open>set_flag cp\<close> of it that the
  handler of the confirm button writes: when both flags are then true, the match of the
  row is appended to the confirmed history, the row leaves the pending table and the
  roster becomes the rebuild over the new history; otherwise only the flag of the row
  changes, and roster and history stay. When the flag of the side of \<open>cp\<close> was true
  already, the handler changes nothing on a row that has not both flags (no pending row
  has, see \<open>one_sided_confirm\<close>), and a click changes nothing at all: such a click
  promotes nothing. A click on a row shown to \<open>cp\<close> runs the handler.
\<close>

theorem confirm_promotes_once:
  assumes "idx < length (pending st)"
  shows
   "(confA (set_flag cp (pending st ! idx)) \<and> confB (set_flag cp (pending st ! idx)) \<longrightarrow>
      (\<exists>ps'. rebuild_players argsort calc (players st) (matches st @ [match.truncate (pending st ! idx)]) 32 = Inr ps' \<and>
         confirm_handler argsort calc idx cp st =
           Inr \<lparr>players = ps', matches = matches st @ [match.truncate (pending st ! idx)],
                pending = take idx (pending st) @ drop (Suc idx) (pending st)\<rparr>)) \<and>
    (\<not> (confA (set_flag cp (pending st ! idx)) \<and> confB (set_flag cp (pending st ! idx))) \<longrightarrow>
      confirm_handler argsort calc idx cp st =
        Inr (st\<lparr>pending := (pending st)[idx := set_flag cp (pending st ! idx)]\<rparr>)) \<and>
    (side_flag cp (pending st ! idx) \<and> \<not> (confA (pending st ! idx) \<and> confB (pending st ! idx)) \<longrightarrow>
      confirm_handler argsort calc idx cp st = Inr st) \<and>
    (side_flag cp (pending st ! idx) \<longrightarrow> confirm argsort calc idx cp st = Inr st) \<and>
    (idx \<in> set (to_confirm cp (pending st)) \<longrightarrow> confirm argsort calc idx cp st = confirm_handler argsort calc idx cp st)"
proof -
  have tr: "match.truncate (set_flag cp r) = match.truncate r" for r :: pending_match
    by (simp add: set_flag_def match.truncate_def)
  have same: "side_flag cp r \<Longrightarrow> set_flag cp r = r" for r :: pending_match
    by (auto simp: set_flag_def side_flag_def)
  have gate: "side_flag cp r \<Longrightarrow> awaiting cp r \<Longrightarrow> \<not> (confA r \<and> confB r)" for r :: pending_match
    by (auto simp: side_flag_def awaiting_def split: if_splits)
  show ?thesis
    using assms
    by (auto simp: confirm_handler_eq Let_def tr rebuild_players_foldl same confirm_def to_confirm_iff
        dest: gate)
qed

text \<open>
  A reports 11 to 8 against B. The click of B promotes the row and rebuilds the roster;
  a click of A, whose flag is set, changes nothing; on a row without any flag the click
  of A sets the flag of A only.
\<close>

theorem confirm_promotes_once_witness:
  "confirm stable_argsort calc_elo_real 0 ''B'' \<lparr>players = [mk_player ''A'' 1200 0 0 0, mk_player ''B'' 1200 0 0 0],
       matches = [], pending = [mk_pending 7 ''A'' ''B'' 11 8 True False]\<rparr>
     = Inr \<lparr>players = [mk_player ''A'' 1216 1 0 1, mk_player ''B'' 1184 0 1 1],
            matches = [mk_match 7 ''A'' ''B'' 11 8], pending = []\<rparr> \<and>
   confirm stable_argsort calc_elo_real 0 ''A'' \<lparr>players = [mk_player ''A'' 1200 0 0 0, mk_player ''B'' 1200 0 0 0],
       matches = [], pending = [mk_pending 7 ''A'' ''B'' 11 8 True False]\<rparr>
     = Inr \<lparr>players = [mk_player ''A'' 1200 0 0 0, mk_player ''B'' 1200 0 0 0],
            matches = [], pending = [mk_pending 7 ''A'' ''B'' 11 8 True False]\<rparr> \<and>
   confirm_handler stable_argsort calc_elo_real 0 ''A'' \<lparr>players = [mk_player ''A'' 1200 0 0 0, mk_player ''B'' 1200 0 0 0],
       matches = [], pending = [mk_pending 7 ''A'' ''B'' 11 8 True False]\<rparr>
     = Inr \<lparr>players = [mk_player ''A'' 1200 0 0 0, mk_player ''B'' 1200 0 0 0],
            matches = [], pending = [mk_pending 7 ''A'' ''B'' 11 8 True False]\<rparr> \<and>
   confirm stable_argsort calc_elo_real 0 ''A'' \<lparr>players = [mk_player ''A'' 1200 0 0 0, mk_player ''B'' 1200 0 0 0],
       matches = [], pending = [mk_pending 7 ''A'' ''B'' 11 8 False False]\<rparr>
     = Inr \<lparr>players = [mk_player ''A'' 1200 0 0 0, mk_player ''B'' 1200 0 0 0],
            matches = [], pending = [mk_pending 7 ''A'' ''B'' 11 8 True False]\<rparr>"
  using confirm_promotes_once [of 0
      "\<lparr>players = [mk_player ''A'' 1200 0 0 0, mk_player ''B'' 1200 0 0 0],
        matches = [], pending = [mk_pending 7 ''A'' ''B'' 11 8 True False]\<rparr>" "''B''" stable_argsort calc_elo_real]
    confirm_promotes_once [of 0
      "\<lparr>players = [mk_player ''A'' 1200 0 0 0, mk_player ''B'' 1200 0 0 0],
        matches = [], pending = [mk_pending 7 ''A'' ''B'' 11 8 True False]\<rparr>" "''A''" stable_argsort calc_elo_real]
    confirm_promotes_once [of 0
      "\<lparr>players = [mk_player ''A'' 1200 0 0 0, mk_player ''B'' 1200 0 0 0],
        matches = [], pending = [mk_pending 7 ''A'' ''B'' 11 8 False False]\<rparr>" "''A''" stable_argsort calc_elo_real]
  by (simp add: set_flag_def side_flag_def to_confirm_iff awaiting_def match.truncate_def
      eval_defs)

end
